theory Spec2Isabelle
  imports Main
begin

section \<open>The collaborative editor's server (backend/server.ts)\<close>

text \<open>
  The server keeps four module-level values (the shared document, the map from socket id
  to username, the set of usernames that are typing and the map from username to the
  handle of its typing timeout) and reacts to the socket events \<open>join\<close>,
  \<open>get-document\<close>, \<open>send-changes\<close>, \<open>typing\<close>, \<open>stop-typing\<close> and
  \<open>disconnect\<close>. Node runs every handler and every timeout callback to completion,
  one after the other, so the server is a function from the state and one event to the
  next state and the list of messages emitted, in emission order. \<open>console.log\<close> output
  is not modelled.
\<close>

subsection \<open>Edits\<close>

text \<open>
  A delta is the array of operations that travels on the wire. Operations are modelled
  without formatting attributes and with text inserts only.
\<close>

datatype delta_op = Insert string | Retain nat | Delete nat

type_synonym delta = "delta_op list"

fun op_length :: "delta_op \<Rightarrow> nat" where
  "op_length (Insert s) = length s"
| "op_length (Retain n) = n"
| "op_length (Delete n) = n"

text \<open>The length of a delta (the library's \<open>length()\<close>): for a document, its text length.\<close>

definition delta_length :: "delta \<Rightarrow> nat" where
  "delta_length d = sum_list (map op_length d)"

text \<open>The length of document an edit walks over: what it retains plus what it deletes.\<close>

fun span :: "delta_op \<Rightarrow> nat" where
  "span (Insert s) = 0"
| "span (Retain n) = n"
| "span (Delete n) = n"

definition span_length :: "delta \<Rightarrow> nat" where
  "span_length e = sum_list (map span e)"

definition exceeds :: "delta \<Rightarrow> delta \<Rightarrow> bool" where
  "exceeds doc e = (delta_length doc < span_length e)"

text \<open>
  Composition is \<open>compose\<close> of the quill-delta package, a dependency whose code is not
  part of the repository: the handlers below take it as the parameter \<open>compose\<close>, where
  \<open>compose doc delta\<close> stands for \<open>doc.compose(new QuillDelta(delta))\<close>, and the general
  theorems hold for every such function.

  Modelled from the spec: composition of the Edit Representation ("apply one change on
  top of a document state to get a new state"), for concrete runs. A document is the
  empty delta or one insert of its whole text. The edit walks over the text of the
  document: a retain keeps characters, an insert adds its text, a delete drops characters,
  and the text the edit does not reach is kept. The retain and delete lengths are
  validated against the length of the document before the edit is applied: an edit whose
  spans exceed it is rejected and not truncated, and so is a malformed edit (one with an
  operation of length zero); a rejected edit leaves the document as it is ("either the
  whole edit composes or the store is left unchanged").
\<close>

fun is_document :: "delta \<Rightarrow> bool" where
  "is_document [] = True"
| "is_document [Insert t] = (t \<noteq> [])"
| "is_document d = False"

definition well_formed :: "delta \<Rightarrow> bool" where
  "well_formed e = list_all (\<lambda>x. 0 < op_length x) e"

fun delta_text :: "delta \<Rightarrow> string" where
  "delta_text [] = []"
| "delta_text (Insert s # d) = s @ delta_text d"
| "delta_text (Retain n # d) = delta_text d"
| "delta_text (Delete n # d) = delta_text d"

fun apply_ops :: "delta \<Rightarrow> string \<Rightarrow> string" where
  "apply_ops [] t = t"
| "apply_ops (Insert s # e) t = s @ apply_ops e t"
| "apply_ops (Retain n # e) t = take n t @ apply_ops e (drop n t)"
| "apply_ops (Delete n # e) t = apply_ops e (drop n t)"

definition delta_compose :: "delta \<Rightarrow> delta \<Rightarrow> delta" where
  "delta_compose doc e =
     (if is_document doc \<and> well_formed e \<and> \<not> exceeds doc e
      then (let t = apply_ops e (delta_text doc) in if t = [] then [] else [Insert t])
      else doc)"

subsection \<open>JavaScript maps\<close>

text \<open>
  A \<open>Map\<close> keeps its entries in insertion order, one per key: \<open>set\<close> on a key that is
  present replaces the value where the entry stands, \<open>set\<close> on a new key appends.
  \<open>get\<close> is \<open>map_of\<close>.
\<close>

fun map_set :: "'k \<Rightarrow> 'v \<Rightarrow> ('k \<times> 'v) list \<Rightarrow> ('k \<times> 'v) list" where
  "map_set k v [] = [(k, v)]"
| "map_set k v ((k', v') # m) =
     (if k' = k then (k, v) # m else (k', v') # map_set k v m)"

definition map_delete :: "'k \<Rightarrow> ('k \<times> 'v) list \<Rightarrow> ('k \<times> 'v) list" where
  "map_delete k m = filter (\<lambda>(k', v). k' \<noteq> k) m"

definition map_values :: "('k \<times> 'v) list \<Rightarrow> 'v list" where
  "map_values m = map snd m"

subsection \<open>Messages and state\<close>

datatype message =
    LoadDocument delta
  | UserList "string list"
  | ReceiveChanges delta string
  | TypingMsg string
  | StopTypingMsg string
  | JoinAck bool "string option"

text \<open>
  \<open>socket.emit\<close> reaches the socket, \<open>io.emit\<close> every connected socket,
  \<open>socket.broadcast.emit\<close> every connected socket but the sender. The acknowledgement
  callback of \<open>join\<close> answers the calling socket.
\<close>

datatype target = ToSocket string | ToAll | ToOthers string

type_synonym emission = "target \<times> message"

fun delivered_to :: "string \<Rightarrow> target \<Rightarrow> bool" where
  "delivered_to sid (ToSocket s) = (s = sid)"
| "delivered_to sid ToAll = True"
| "delivered_to sid (ToOthers s) = (s \<noteq> sid)"

text \<open>
  A pending timeout of the runtime: its handle, the time (in ms) at which it is due, and
  the username its callback closes over. Every timeout of the server has the same callback.
\<close>

type_synonym timer = "nat \<times> nat \<times> string"

record server =
  document :: delta
  users :: "(string \<times> string) list"
  typingUsers :: "string set"
  typingTimeouts :: "(string \<times> nat) list"
  timers :: "timer list"
  next_handle :: nat
  now :: nat

definition init_state :: server where
  "init_state = \<lparr> document = [], users = [], typingUsers = {}, typingTimeouts = [],
     timers = [], next_handle = 0, now = 0 \<rparr>"

subsection \<open>Timeouts\<close>

definition clearTimeout :: "nat \<Rightarrow> server \<Rightarrow> server" where
  "clearTimeout h st = st\<lparr>timers := filter (\<lambda>(h', d, u). h' \<noteq> h) (timers st)\<rparr>"

definition setTimeout :: "string \<Rightarrow> nat \<Rightarrow> server \<Rightarrow> nat \<times> server" where
  "setTimeout username ms st =
     (next_handle st,
      st\<lparr>timers := timers st @ [(next_handle st, now st + ms, username)],
         next_handle := Suc (next_handle st)\<rparr>)"

text \<open>The callback of the typing timeout.\<close>

definition timeout_callback :: "string \<Rightarrow> server \<Rightarrow> server \<times> emission list" where
  "timeout_callback username st =
     (st\<lparr>typingUsers := typingUsers st - {username}\<rparr>, [(ToAll, StopTypingMsg username)])"

fun fire :: "timer list \<Rightarrow> server \<Rightarrow> server \<times> emission list" where
  "fire [] st = (st, [])"
| "fire ((h, d, username) # ts) st =
     (let (st1, out1) = timeout_callback username st;
          (st2, out2) = fire ts st1
      in (st2, out1 @ out2))"

text \<open>
  \<open>ms\<close> milliseconds pass with no socket event: the timeouts that are due by then run,
  oldest first (all have the same delay, so the pending list is in order of due time).
\<close>

definition elapse :: "nat \<Rightarrow> server \<Rightarrow> server \<times> emission list" where
  "elapse ms st =
     (let t = now st + ms;
          expired = filter (\<lambda>(h, d, u). d \<le> t) (timers st);
          st1 = st\<lparr>timers := filter (\<lambda>(h, d, u). \<not> d \<le> t) (timers st), now := t\<rparr>
      in fire expired st1)"

subsection \<open>Handlers\<close>

definition handleTyping :: "string \<Rightarrow> server \<Rightarrow> server \<times> emission list" where
  "handleTyping username st =
     (let (st1, out) =
            (if username \<notin> typingUsers st
             then (st\<lparr>typingUsers := insert username (typingUsers st)\<rparr>,
                   [(ToAll, TypingMsg username)])
             else (st, []));
          st2 = (case map_of (typingTimeouts st1) username of
                   Some h \<Rightarrow> clearTimeout h st1
                 | None \<Rightarrow> st1);
          (timeout, st3) = setTimeout username 1000 st2
      in (st3\<lparr>typingTimeouts := map_set username timeout (typingTimeouts st3)\<rparr>, out))"

text \<open>\<open>cb\<close> says whether the client passed an acknowledgement callback.\<close>

definition on_join :: "string \<Rightarrow> string \<Rightarrow> bool \<Rightarrow> server \<Rightarrow> server \<times> emission list" where
  "on_join sid username cb st =
     (let isUsernameTaken = username \<in> set (map_values (users st)) in
      if isUsernameTaken
      then (st, if cb then [(ToSocket sid, JoinAck False (Some ''Username is already taken''))]
                else [])
      else
        let st1 = st\<lparr>users := map_set sid username (users st)\<rparr> in
        (st1, [(ToSocket sid, LoadDocument (document st1)),
               (ToAll, UserList (map_values (users st1)))]
              @ (if cb then [(ToSocket sid, JoinAck True None)] else [])))"

definition on_get_document :: "string \<Rightarrow> server \<Rightarrow> server \<times> emission list" where
  "on_get_document sid st = (st, [(ToSocket sid, LoadDocument (document st))])"

text \<open>\<open>users.get(socket.id) || "Unknown"\<close>: a missing entry and the empty name both give "Unknown".\<close>

definition on_send_changes ::
  "(delta \<Rightarrow> delta \<Rightarrow> delta) \<Rightarrow> string \<Rightarrow> delta \<Rightarrow> server \<Rightarrow> server \<times> emission list" where
  "on_send_changes compose sid delta st =
     (let user = (case map_of (users st) sid of
                    Some u \<Rightarrow> if u = [] then ''Unknown'' else u
                  | None \<Rightarrow> ''Unknown'')
      in (st\<lparr>document := compose (document st) delta\<rparr>,
          [(ToOthers sid, ReceiveChanges delta user)]))"

definition on_typing :: "string \<Rightarrow> string \<Rightarrow> server \<Rightarrow> server \<times> emission list" where
  "on_typing sid username st = handleTyping username st"

definition on_stop_typing :: "string \<Rightarrow> string \<Rightarrow> server \<Rightarrow> server \<times> emission list" where
  "on_stop_typing sid username st =
     (st\<lparr>typingUsers := typingUsers st - {username}\<rparr>, [(ToAll, StopTypingMsg username)])"

text \<open>\<open>if (username)\<close>: the branch is skipped for a missing entry and for the empty name.\<close>

definition on_disconnect :: "string \<Rightarrow> server \<Rightarrow> server \<times> emission list" where
  "on_disconnect sid st =
     (let (st1, out) =
            (case map_of (users st) sid of
               Some username \<Rightarrow>
                 if username \<noteq> []
                 then (st\<lparr>typingUsers := typingUsers st - {username}\<rparr>,
                       [(ToAll, UserList (map_values (users st)))])
                 else (st, [])
             | None \<Rightarrow> (st, []))
      in (st1\<lparr>users := map_delete sid (users st1)\<rparr>, out))"

subsection \<open>The event loop\<close>

datatype event =
    Connection string
  | Join string string bool
  | GetDocument string
  | SendChanges string delta
  | Typing string string
  | StopTyping string string
  | Disconnect string
  | Elapse nat

fun step :: "(delta \<Rightarrow> delta \<Rightarrow> delta) \<Rightarrow> event \<Rightarrow> server \<Rightarrow> server \<times> emission list" where
  "step compose (Connection sid) st = (st, [])"
| "step compose (Join sid username cb) st = on_join sid username cb st"
| "step compose (GetDocument sid) st = on_get_document sid st"
| "step compose (SendChanges sid delta) st = on_send_changes compose sid delta st"
| "step compose (Typing sid username) st = on_typing sid username st"
| "step compose (StopTyping sid username) st = on_stop_typing sid username st"
| "step compose (Disconnect sid) st = on_disconnect sid st"
| "step compose (Elapse ms) st = elapse ms st"

fun run :: "(delta \<Rightarrow> delta \<Rightarrow> delta) \<Rightarrow> event list \<Rightarrow> server \<Rightarrow> server \<times> emission list" where
  "run compose [] st = (st, [])"
| "run compose (e # es) st =
     (let (st1, out1) = step compose e st;
          (st2, out2) = run compose es st1
      in (st2, out1 @ out2))"

text \<open>The edits of a trace, in the order the server receives them.\<close>

fun edits :: "event list \<Rightarrow> delta list" where
  "edits [] = []"
| "edits (SendChanges sid delta # es) = delta # edits es"
| "edits (e # es) = edits es"

subsection \<open>Invariants and observations\<close>

text \<open>
  The registry holds one entry for each socket id, and no username twice.
\<close>

definition registry_ok :: "server \<Rightarrow> bool" where
  "registry_ok st = (distinct (map fst (users st)) \<and> distinct (map snd (users st)))"

text \<open>
  Every pending timeout is due in the future and is the one registered in
  \<open>typingTimeouts\<close> under its username; no handle is registered under two usernames, and
  handles are never reused.
\<close>

definition timers_ok :: "server \<Rightarrow> bool" where
  "timers_ok st =
     (distinct (map fst (timers st)) \<and>
      distinct (map snd (typingTimeouts st)) \<and>
      (\<forall>(u, h) \<in> set (typingTimeouts st). h < next_handle st) \<and>
      (\<forall>(h, d, u) \<in> set (timers st).
         now st < d \<and> map_of (typingTimeouts st) u = Some h))"

text \<open>The pending timeouts of a username.\<close>

definition own_timers :: "string \<Rightarrow> server \<Rightarrow> timer list" where
  "own_timers n st = filter (\<lambda>t. snd (snd t) = n) (timers st)"

text \<open>
  An event that is no typing or stop-typing signal for the username \<open>n\<close>: a signal for
  another username, a join, an edit, a disconnect, or time that passes.
\<close>

fun quiet :: "string \<Rightarrow> event \<Rightarrow> bool" where
  "quiet n (Typing sid u) = (u \<noteq> n)"
| "quiet n (StopTyping sid u) = (u \<noteq> n)"
| "quiet n e = True"

text \<open>The time that passes in a trace.\<close>

fun elapsed :: "event list \<Rightarrow> nat" where
  "elapsed [] = 0"
| "elapsed (Elapse ms # es) = ms + elapsed es"
| "elapsed (e # es) = elapsed es"

text \<open>No connection disconnects in the trace while it is registered under \<open>n\<close>.\<close>

fun stays :: "(delta \<Rightarrow> delta \<Rightarrow> delta) \<Rightarrow> string \<Rightarrow> event list \<Rightarrow> server \<Rightarrow> bool" where
  "stays compose n [] st = True"
| "stays compose n (e # es) st =
     ((case e of Disconnect sid \<Rightarrow> map_of (users st) sid \<noteq> Some n | _ \<Rightarrow> True) \<and>
      stays compose n es (fst (step compose e st)))"

text \<open>What the callback of a timeout emits, and how often a message occurs in an output.\<close>

definition stop_of :: "timer \<Rightarrow> emission" where
  "stop_of t = (ToAll, StopTypingMsg (snd (snd t)))"

definition count_msg :: "message \<Rightarrow> emission list \<Rightarrow> nat" where
  "count_msg m out = length (filter (\<lambda>e. snd e = m) out)"

text \<open>
  In an output, no user list that names \<open>username\<close> reaches the socket \<open>sid\<close> before the
  join acknowledgement of \<open>sid\<close> does.
\<close>

fun ack_first :: "string \<Rightarrow> string \<Rightarrow> emission list \<Rightarrow> bool" where
  "ack_first sid username [] = True"
| "ack_first sid username ((t, JoinAck ok msg) # out) =
     (if t = ToSocket sid then True else ack_first sid username out)"
| "ack_first sid username ((t, UserList names) # out) =
     (if delivered_to sid t \<and> username \<in> set names then False
      else ack_first sid username out)"
| "ack_first sid username (e # out) = ack_first sid username out"

section \<open>Maps\<close>

lemma map_of_map_set: "map_of (map_set k v m) = (map_of m)(k \<mapsto> v)"
  by (induction m) auto

lemma fst_map_set: "fst ` set (map_set k v m) = insert k (fst ` set m)"
  by (induction k v m rule: map_set.induct) (simp_all add: insert_commute)

lemma snd_map_set: "snd ` set (map_set k v m) \<subseteq> insert v (snd ` set m)"
  by (induction k v m rule: map_set.induct) auto

lemma distinct_fst_map_set:
  "distinct (map fst m) \<Longrightarrow> distinct (map fst (map_set k v m))"
  by (induction m) (auto simp: fst_map_set)

lemma distinct_snd_map_set:
  "distinct (map snd m) \<Longrightarrow> v \<notin> snd ` set m \<Longrightarrow> distinct (map snd (map_set k v m))"
proof (induction m)
  case Nil
  show ?case by simp
next
  case (Cons p m)
  obtain k' v' where p: "p = (k', v')" by (cases p)
  show ?case
  proof (cases "k' = k")
    case True
    with Cons.prems p show ?thesis by auto
  next
    case False
    have "v' \<notin> snd ` set (map_set k v m)"
      using snd_map_set [of k v m] Cons.prems p by auto
    with False Cons p show ?thesis by auto
  qed
qed

lemma value_in_map_set: "v \<in> snd ` set (map_set k v m)"
  by (induction k v m rule: map_set.induct) simp_all

lemma length_map_set: "map_of m k = Some a \<Longrightarrow> length (map_set k v m) = length m"
  by (induction m) (auto split: if_splits)

lemma old_value_gone:
  "distinct (map fst m) \<Longrightarrow> distinct (map snd m) \<Longrightarrow> map_of m k = Some a \<Longrightarrow> a \<noteq> v \<Longrightarrow>
   a \<notin> snd ` set (map_set k v m)"
proof (induction m)
  case Nil
  then show ?case by simp
next
  case (Cons p m)
  obtain k' v' where p: "p = (k', v')" by (cases p)
  show ?case
  proof (cases "k' = k")
    case True
    with Cons.prems p show ?thesis by (auto simp: image_iff)
  next
    case False
    with Cons.prems p have "map_of m k = Some a" by simp
    then have "(k, a) \<in> set m" by (rule map_of_SomeD)
    then have "a \<in> snd ` set m" by force
    with Cons.prems p have "v' \<noteq> a" by auto
    with False Cons p \<open>map_of m k = Some a\<close> show ?thesis by auto
  qed
qed

lemma distinct_map_delete:
  "distinct (map f m) \<Longrightarrow> distinct (map f (map_delete k m))"
  by (simp add: map_delete_def distinct_map_filter)

section \<open>Timeouts that run\<close>

text \<open>
  Running a list of timeouts only removes their usernames from the typing set and emits
  one stop-typing message for each, in order.
\<close>

lemma fire_eq:
  "fire ts st =
     (st\<lparr>typingUsers := typingUsers st - set (map (snd \<circ> snd) ts)\<rparr>, map stop_of ts)"
proof (induction ts arbitrary: st)
  case Nil
  show ?case by simp
next
  case (Cons t ts)
  obtain h d u where t: "t = (h, d, u)" by (cases t)
  have "typingUsers st - {u} - set (map (snd \<circ> snd) ts)
          = typingUsers st - insert u (set (map (snd \<circ> snd) ts))"
    by auto
  then show ?case
    by (simp add: t Cons.IH timeout_callback_def stop_of_def)
qed

lemma elapse_eq:
  "elapse ms st =
     (st\<lparr>timers := filter (\<lambda>(h, d, u). \<not> d \<le> now st + ms) (timers st),
         now := now st + ms,
         typingUsers := typingUsers st
            - set (map (snd \<circ> snd) (filter (\<lambda>(h, d, u). d \<le> now st + ms) (timers st)))\<rparr>,
      map stop_of (filter (\<lambda>(h, d, u). d \<le> now st + ms) (timers st)))"
  by (simp add: elapse_def fire_eq Let_def)

lemma count_msg_simps:
  "count_msg m [] = 0"
  "count_msg m ((t, m') # out) = (if m' = m then 1 else 0) + count_msg m out"
  "count_msg m (out @ out') = count_msg m out + count_msg m out'"
  by (simp_all add: count_msg_def)

lemma count_stop_of:
  "count_msg (StopTypingMsg n) (map stop_of ts) = length (filter (\<lambda>t. snd (snd t) = n) ts)"
  by (induction ts) (auto simp: stop_of_def count_msg_def)

lemma count_stop_elapse:
  "count_msg (StopTypingMsg n) (snd (elapse ms st))
     = length (filter (\<lambda>(h, d, u). d \<le> now st + ms)
         (filter (\<lambda>t. snd (snd t) = n) (timers st)))"
  by (simp add: elapse_eq count_stop_of) (metis (mono_tags, lifting) filter_cong)

section \<open>Concrete runs\<close>

text \<open>
  The states that the examples below start from, reached from the initial state with the
  modelled composition.
\<close>

lemma run_alice: "fst (run delta_compose [Join ''s1'' ''alice'' True] init_state) =
   init_state\<lparr>users := [(''s1'', ''alice'')]\<rparr>"
  by (simp add: on_join_def init_state_def map_values_def)

lemma run_alice_bob:
  "fst (run delta_compose [Join ''s1'' ''alice'' True, Join ''s2'' ''bob'' True] init_state)
     = init_state\<lparr>users := [(''s1'', ''alice''), (''s2'', ''bob'')]\<rparr>"
  by (simp add: on_join_def init_state_def map_values_def)

lemmas compose_defs =
  delta_compose_def well_formed_def exceeds_def delta_length_def span_length_def

lemma run_alice_hi:
  "fst (run delta_compose [Join ''s1'' ''alice'' True, SendChanges ''s1'' [Insert ''hi'']]
          init_state)
     = init_state\<lparr>document := [Insert ''hi''], users := [(''s1'', ''alice'')]\<rparr>"
  by (simp add: on_join_def on_send_changes_def compose_defs init_state_def
        map_values_def)

lemma run_alice_typing:
  "fst (run delta_compose [Join ''s1'' ''alice'' True, Typing ''s1'' ''alice''] init_state)
     = init_state\<lparr>users := [(''s1'', ''alice'')], typingUsers := {''alice''},
         typingTimeouts := [(''alice'', 0)], timers := [(0, 1000, ''alice'')],
         next_handle := 1\<rparr>"
  by (simp add: on_join_def on_typing_def handleTyping_def setTimeout_def init_state_def
        map_values_def)

text \<open>
  The scenario of the design: the document starts empty, A inserts "hi", B retains two
  characters and inserts "!"; the document reads "hi!" and B's edit goes to everyone but B,
  under B's name.
\<close>

lemma scenario_hi:
  "run delta_compose [SendChanges ''sB'' [Retain 2, Insert ''!'']]
     (fst (run delta_compose
        [Join ''sA'' ''A'' True, Join ''sB'' ''B'' True, SendChanges ''sA'' [Insert ''hi'']]
        init_state))
   = (init_state\<lparr>document := [Insert ''hi!''], users := [(''sA'', ''A''), (''sB'', ''B'')]\<rparr>,
      [(ToOthers ''sB'', ReceiveChanges [Retain 2, Insert ''!''] ''B'')])"
  by (simp add: on_join_def on_send_changes_def compose_defs init_state_def
        map_values_def)

section \<open>The document store\<close>

lemma step_document:
  "document (fst (step compose e st)) =
     (case e of SendChanges sid delta \<Rightarrow> compose (document st) delta | _ \<Rightarrow> document st)"
  by (cases e)
     (auto simp: on_join_def on_get_document_def on_send_changes_def on_typing_def
        handleTyping_def setTimeout_def clearTimeout_def on_stop_typing_def
        on_disconnect_def elapse_eq Let_def
        split: option.splits prod.splits)

lemma run_document:
  "document (fst (run compose es st)) = foldl compose (document st) (edits es)"
proof (induction es arbitrary: st)
  case Nil
  show ?case by simp
next
  case (Cons e es)
  have "document (fst (run compose (e # es) st))
          = document (fst (run compose es (fst (step compose e st))))"
    by (simp split: prod.splits)
  also have "\<dots> = foldl compose (document (fst (step compose e st))) (edits es)"
    by (rule Cons.IH)
  also have "\<dots> = foldl compose (document st) (edits (e # es))"
    by (cases e) (simp_all add: step_document del: step.simps)
  finally show ?case .
qed

text \<open>
  C2. Whatever events the server processes from its start, the stored document is the
  composition of the edits it received through \<open>send-changes\<close>, one after the other in
  the order of receipt, onto the empty document. Every edit is accepted, and no other
  event changes the document.
\<close>

theorem document_is_composition_in_receipt_order:
  "document (fst (run compose es init_state)) = foldl compose [] (edits es)"
  by (simp add: run_document init_state_def)

text \<open>
  C1, as the code has it. The handler of \<open>send-changes\<close> validates nothing: for every
  state and every edit, also one whose retain and delete spans exceed the length of the
  document, it sends the edit with its author's name to every socket but the sender and
  replaces the stored document by the composition of the document and the edit. No edit
  is rejected.
\<close>

theorem send_changes_no_validation:
  "step compose (SendChanges sid delta) st =
     (st\<lparr>document := compose (document st) delta\<rparr>,
      [(ToOthers sid, ReceiveChanges delta
          (case map_of (users st) sid of
             Some u \<Rightarrow> if u = [] then ''Unknown'' else u
           | None \<Rightarrow> ''Unknown''))])"
  by (simp add: on_send_changes_def)

text \<open>
  C1 as stated fails: the document is "hi" (length 2), the edit retains 5 characters and
  inserts "!", and the edit is broadcast to the other sockets.
\<close>

theorem out_of_range_edit_counterexample:
  "exceeds
     (document (fst (run delta_compose
        [Join ''s1'' ''alice'' True, SendChanges ''s1'' [Insert ''hi'']] init_state)))
     [Retain 5, Insert ''!''] \<and>
   snd (step delta_compose (SendChanges ''s1'' [Retain 5, Insert ''!''])
     (fst (run delta_compose
        [Join ''s1'' ''alice'' True, SendChanges ''s1'' [Insert ''hi'']] init_state)))
     = [(ToOthers ''s1'', ReceiveChanges [Retain 5, Insert ''!''] ''alice'')]"
  by (simp only: run_alice_hi)
     (simp add: exceeds_def delta_length_def span_length_def on_send_changes_def)

section \<open>The session registry\<close>

lemma step_registry_ok: "registry_ok st \<Longrightarrow> registry_ok (fst (step compose e st))"
  by (cases e)
     (auto simp: registry_ok_def on_join_def on_get_document_def on_send_changes_def
        on_typing_def handleTyping_def setTimeout_def clearTimeout_def on_stop_typing_def
        on_disconnect_def elapse_eq Let_def map_values_def
        distinct_fst_map_set distinct_snd_map_set distinct_map_delete
        split: option.splits prod.splits)

lemma run_registry_ok: "registry_ok st \<Longrightarrow> registry_ok (fst (run compose es st))"
proof (induction es arbitrary: st)
  case Nil
  then show ?case by simp
next
  case (Cons e es)
  have "fst (run compose (e # es) st) = fst (run compose es (fst (step compose e st)))"
    by (simp add: case_prod_beta)
  with Cons.IH [OF step_registry_ok [OF Cons.prems]] show ?case by simp
qed

lemma init_registry_ok: "registry_ok init_state"
  by (simp add: registry_ok_def init_state_def)

text \<open>
  C3. A join under a username that a registered connection holds changes nothing in the
  state (so the registry is as it was) and emits no \<open>load-document\<close> and no
  \<open>user-list\<close>: the only output is the failure acknowledgement "Username is already
  taken" to the requesting socket, through the callback it passed (nothing at all when it
  passed none).
\<close>

theorem join_taken_name_rejected:
  "username \<in> set (map_values (users st)) \<Longrightarrow>
   step compose (Join sid username cb) st =
     (st, if cb then [(ToSocket sid, JoinAck False (Some ''Username is already taken''))]
          else [])"
  by (simp add: on_join_def)

theorem join_taken_name_rejected_witness:
  "step delta_compose (Join ''s2'' ''alice'' True)
     (fst (run delta_compose [Join ''s1'' ''alice'' True] init_state)) =
     (fst (run delta_compose [Join ''s1'' ''alice'' True] init_state),
      [(ToSocket ''s2'', JoinAck False (Some ''Username is already taken''))])"
proof -
  have "''alice'' \<in> set (map_values (users (fst (run delta_compose [Join ''s1'' ''alice'' True] init_state))))"
    by (simp add: on_join_def init_state_def map_values_def)
  from join_taken_name_rejected [OF this, of delta_compose "''s2''" True]
  show ?thesis by simp
qed

text \<open>
  C10. In every state the server reaches, the registry has one entry for each socket id.
  When a connection registered as \<open>a\<close> joins again under a username \<open>b\<close> that nobody
  holds, the join is accepted: its entry is overwritten with \<open>b\<close> (the registry grows by
  no entry), \<open>a\<close> is held by nobody afterwards, so that a join of another connection
  under \<open>a\<close> is accepted at once, and the document and the full user list are sent again.
\<close>

theorem rejoin_overwrites_name:
  assumes "st = fst (run compose es init_state)"
  shows "distinct (map fst (users st)) \<and>
         (map_of (users st) sid = Some a \<and> b \<notin> set (map_values (users st)) \<longrightarrow>
            step compose (Join sid b cb) st =
              (st\<lparr>users := map_set sid b (users st)\<rparr>,
               [(ToSocket sid, LoadDocument (document st)),
                (ToAll, UserList (map_values (map_set sid b (users st))))]
               @ (if cb then [(ToSocket sid, JoinAck True None)] else [])) \<and>
            map_of (map_set sid b (users st)) sid = Some b \<and>
            distinct (map fst (map_set sid b (users st))) \<and>
            length (map_set sid b (users st)) = length (users st) \<and>
            a \<notin> set (map_values (map_set sid b (users st))) \<and>
            b \<in> set (map_values (map_set sid b (users st))) \<and>
            users (fst (step compose (Join sid' a cb')
                          (st\<lparr>users := map_set sid b (users st)\<rparr>)))
              = map_set sid' a (map_set sid b (users st)))"
proof -
  have ok: "registry_ok st"
    using assms run_registry_ok [OF init_registry_ok] by simp
  then have keys: "distinct (map fst (users st))" and names: "distinct (map snd (users st))"
    by (simp_all add: registry_ok_def)
  have rename: "step compose (Join sid b cb) st =
              (st\<lparr>users := map_set sid b (users st)\<rparr>,
               [(ToSocket sid, LoadDocument (document st)),
                (ToAll, UserList (map_values (map_set sid b (users st))))]
               @ (if cb then [(ToSocket sid, JoinAck True None)] else [])) \<and>
            map_of (map_set sid b (users st)) sid = Some b \<and>
            distinct (map fst (map_set sid b (users st))) \<and>
            length (map_set sid b (users st)) = length (users st) \<and>
            a \<notin> set (map_values (map_set sid b (users st))) \<and>
            b \<in> set (map_values (map_set sid b (users st))) \<and>
            users (fst (step compose (Join sid' a cb')
                          (st\<lparr>users := map_set sid b (users st)\<rparr>)))
              = map_set sid' a (map_set sid b (users st))"
    if held: "map_of (users st) sid = Some a" and free: "b \<notin> set (map_values (users st))"
  proof -
    have "(sid, a) \<in> set (users st)"
      using held by (rule map_of_SomeD)
    then have "a \<in> set (map_values (users st))"
      by (force simp: map_values_def)
    with free have ab: "a \<noteq> b" by auto
    have gone: "a \<notin> set (map_values (map_set sid b (users st)))"
      using old_value_gone [OF keys names held ab] by (simp add: map_values_def)
    have there: "b \<in> set (map_values (map_set sid b (users st)))"
      using value_in_map_set [of b sid "users st"] by (simp add: map_values_def)
    have stp: "step compose (Join sid b cb) st =
             (st\<lparr>users := map_set sid b (users st)\<rparr>,
              [(ToSocket sid, LoadDocument (document st)),
               (ToAll, UserList (map_values (map_set sid b (users st))))]
              @ (if cb then [(ToSocket sid, JoinAck True None)] else []))"
      using free by (simp add: on_join_def)
    have again: "users (fst (step compose (Join sid' a cb')
                       (st\<lparr>users := map_set sid b (users st)\<rparr>)))
                   = map_set sid' a (map_set sid b (users st))"
      using gone by (simp add: on_join_def)
    show ?thesis
      using stp gone there again distinct_fst_map_set [OF keys, of sid b]
        length_map_set [OF held, of b]
      by (simp add: map_of_map_set)
  qed
  from keys rename show ?thesis by blast
qed

theorem rejoin_overwrites_name_witness:
  "step delta_compose (Join ''s1'' ''bob'' True)
      (fst (run delta_compose [Join ''s1'' ''alice'' True] init_state)) =
     (init_state\<lparr>users := [(''s1'', ''bob'')]\<rparr>,
      [(ToSocket ''s1'', LoadDocument []), (ToAll, UserList [''bob'']),
       (ToSocket ''s1'', JoinAck True None)]) \<and>
   ''alice'' \<notin> set (map_values (map_set ''s1'' ''bob''
      (users (fst (run delta_compose [Join ''s1'' ''alice'' True] init_state))))) \<and>
   users (fst (step delta_compose (Join ''s2'' ''alice'' True)
      (fst (step delta_compose (Join ''s1'' ''bob'' True)
         (fst (run delta_compose [Join ''s1'' ''alice'' True] init_state))))))
     = [(''s1'', ''bob''), (''s2'', ''alice'')]"
proof -
  let ?st = "fst (run delta_compose [Join ''s1'' ''alice'' True] init_state)"
  have h2: "map_of (users ?st) ''s1'' = Some ''alice''"
    by (simp only: run_alice) simp
  have h3: "''bob'' \<notin> set (map_values (users ?st))"
    by (simp only: run_alice) (simp add: map_values_def)
  from rejoin_overwrites_name [OF refl, of delta_compose "[Join ''s1'' ''alice'' True]"
      "''s1''" "''alice''" "''bob''" True "''s2''" True] h2 h3
  have "step delta_compose (Join ''s1'' ''bob'' True) ?st =
          (?st\<lparr>users := map_set ''s1'' ''bob'' (users ?st)\<rparr>,
           [(ToSocket ''s1'', LoadDocument (document ?st)),
            (ToAll, UserList (map_values (map_set ''s1'' ''bob'' (users ?st))))]
           @ [(ToSocket ''s1'', JoinAck True None)]) \<and>
        ''alice'' \<notin> set (map_values (map_set ''s1'' ''bob'' (users ?st))) \<and>
        users (fst (step delta_compose (Join ''s2'' ''alice'' True)
                      (?st\<lparr>users := map_set ''s1'' ''bob'' (users ?st)\<rparr>)))
          = map_set ''s2'' ''alice'' (map_set ''s1'' ''bob'' (users ?st))"
    by simp
  then show ?thesis
    by (simp only: run_alice) (simp add: map_values_def init_state_def)
qed

text \<open>
  C9, as the code has it. An accepted join emits, in this order, \<open>load-document\<close> to the
  joiner, \<open>user-list\<close> to every socket, and then the success acknowledgement (when a
  callback was passed). The user list names the joiner: the acknowledgement comes after
  the user list that includes the joiner, never before it.
\<close>

theorem join_emission_order:
  assumes "username \<notin> set (map_values (users st))"
  shows "snd (step compose (Join sid username cb) st) =
           [(ToSocket sid, LoadDocument (document st)),
            (ToAll, UserList (map_values (users (fst (step compose (Join sid username cb) st)))))]
           @ (if cb then [(ToSocket sid, JoinAck True None)] else []) \<and>
         username \<in> set (map_values (users (fst (step compose (Join sid username cb) st))))"
  using assms value_in_map_set [of username sid "users st"]
  by (simp add: on_join_def map_values_def)

theorem join_emission_order_witness:
  "snd (step delta_compose (Join ''s1'' ''alice'' True) init_state) =
     [(ToSocket ''s1'', LoadDocument []), (ToAll, UserList [''alice'']),
      (ToSocket ''s1'', JoinAck True None)]"
proof -
  have "''alice'' \<notin> set (map_values (users init_state))"
    by (simp add: init_state_def map_values_def)
  from join_emission_order [OF this, of delta_compose "''s1''" True]
  show ?thesis by (simp add: on_join_def init_state_def map_values_def)
qed

text \<open>
  C9 as stated fails: in the output of the first join, a user list that names the joiner
  reaches the joiner before the acknowledgement does.
\<close>

theorem join_ack_after_user_list_counterexample:
  "\<not> ack_first ''s1'' ''alice''
       (snd (step delta_compose (Join ''s1'' ''alice'' True) init_state))"
  by (simp add: on_join_def init_state_def map_values_def)

text \<open>
  C5, on the code. The handler of \<open>disconnect\<close> emits the user list before it deletes
  the entry of the leaving connection: for a registered connection with a non-empty
  username, the list that is broadcast is the registry's list before the removal, and it
  still names the leaver. The entry is deleted afterwards.
\<close>

theorem disconnect_user_list_names_leaver:
  assumes "map_of (users st) sid = Some username" and "username \<noteq> []"
  shows "snd (step compose (Disconnect sid) st) = [(ToAll, UserList (map_values (users st)))] \<and>
         username \<in> set (map_values (users st)) \<and>
         users (fst (step compose (Disconnect sid) st)) = map_delete sid (users st)"
proof -
  have "(sid, username) \<in> set (users st)"
    using assms(1) by (rule map_of_SomeD)
  then have "username \<in> set (map_values (users st))"
    by (force simp: map_values_def)
  then show ?thesis
    using assms by (simp add: on_disconnect_def)
qed

theorem disconnect_user_list_names_leaver_witness:
  "snd (step delta_compose (Disconnect ''s1'')
     (fst (run delta_compose [Join ''s1'' ''alice'' True, Join ''s2'' ''bob'' True] init_state)))
     = [(ToAll, UserList [''alice'', ''bob''])] \<and>
   users (fst (step delta_compose (Disconnect ''s1'')
     (fst (run delta_compose [Join ''s1'' ''alice'' True, Join ''s2'' ''bob'' True] init_state))))
     = [(''s2'', ''bob'')]"
proof -
  let ?st = "fst (run delta_compose [Join ''s1'' ''alice'' True, Join ''s2'' ''bob'' True]
                init_state)"
  have h1: "map_of (users ?st) ''s1'' = Some ''alice''"
    by (simp only: run_alice_bob) simp
  have h2: "''alice'' \<noteq> []" by simp
  from disconnect_user_list_names_leaver [OF h1 h2, of delta_compose]
  show ?thesis
    by (simp only: run_alice_bob) (simp add: map_values_def map_delete_def)
qed

section \<open>Typing\<close>

lemma run_append:
  "run compose (es @ es') st =
     (fst (run compose es' (fst (run compose es st))),
      snd (run compose es st) @ snd (run compose es' (fst (run compose es st))))"
  by (induction es arbitrary: st) (simp_all add: case_prod_beta)

lemma run_Cons:
  "run compose (e # es) st =
     (fst (run compose es (fst (step compose e st))),
      snd (step compose e st) @ snd (run compose es (fst (step compose e st))))"
  by (simp add: case_prod_beta)

lemma elapsed_Cons: "elapsed (e # es) = elapsed [e] + elapsed es"
  by (cases e) simp_all

lemma registered_handle:
  assumes "distinct (map snd tt)" and "map_of tt u = Some h" and "map_of tt u' = Some h"
  shows "u = u'"
proof -
  have "(u, h) \<in> set tt" and "(u', h) \<in> set tt"
    using assms(2,3) by (auto dest: map_of_SomeD)
  moreover have "inj_on snd (set tt)"
    using assms(1) by (simp add: distinct_map)
  ultimately have "(u, h) = (u', h)"
    by (intro inj_onD [of snd "set tt"]) simp_all
  then show ?thesis by simp
qed

lemma filter_keep:
  "\<forall>t \<in> set ts. P t \<longrightarrow> Q t \<Longrightarrow> filter P (filter Q ts) = filter P ts"
  by (induction ts) auto

lemma handleTyping_own_timers:
  assumes "timers_ok st"
  shows "own_timers n (fst (handleTyping n st)) = [(next_handle st, now st + 1000, n)]"
proof -
  have none: "filter (\<lambda>t. snd (snd t) = n)
        (timers (case map_of (typingTimeouts st) n of
                   Some h \<Rightarrow> clearTimeout h st | None \<Rightarrow> st)) = []"
  proof (cases "map_of (typingTimeouts st) n")
    case None
    with assms show ?thesis
      by (auto simp: timers_ok_def filter_empty_conv)
  next
    case (Some h)
    with assms show ?thesis
      by (auto simp: timers_ok_def filter_empty_conv clearTimeout_def)
  qed
  then show ?thesis
    by (auto simp: own_timers_def handleTyping_def setTimeout_def clearTimeout_def Let_def
          split: option.splits)
qed

lemma handleTyping_other_timers:
  assumes "timers_ok st" and "m \<noteq> n"
  shows "own_timers n (fst (handleTyping m st)) = own_timers n st"
proof -
  have keep: "filter (\<lambda>t. snd (snd t) = n) (filter (\<lambda>(h', d, u). h' \<noteq> h) (timers st))
                = filter (\<lambda>t. snd (snd t) = n) (timers st)"
    if reg: "map_of (typingTimeouts st) m = Some h" for h
  proof (rule filter_keep, intro ballI impI)
    fix t
    assume t: "t \<in> set (timers st)" and own: "snd (snd t) = n"
    obtain h' d where eq: "t = (h', d, n)"
      using own by (cases t) auto
    have "map_of (typingTimeouts st) n = Some h'"
      using t eq assms(1) by (auto simp: timers_ok_def)
    then have "h' \<noteq> h"
      using registered_handle [of "typingTimeouts st" m h n] reg assms(1,2)
      by (auto simp: timers_ok_def)
    then show "case t of (h', d, u) \<Rightarrow> h' \<noteq> h"
      by (simp add: eq)
  qed
  show ?thesis
    using keep assms(2)
    by (auto simp: own_timers_def handleTyping_def setTimeout_def clearTimeout_def Let_def
          split: option.splits)
qed

lemma handleTyping_timers_ok:
  assumes "timers_ok st"
  shows "timers_ok (fst (handleTyping n st))"
proof -
  define ts where "ts = timers (case map_of (typingTimeouts st) n of
                Some h \<Rightarrow> clearTimeout h st | None \<Rightarrow> st)"
  have sub: "set ts \<subseteq> set (timers st)"
    by (auto simp: ts_def clearTimeout_def split: option.splits)
  have dist: "distinct (map fst ts)"
    using assms by (auto simp: ts_def timers_ok_def clearTimeout_def distinct_map_filter
        split: option.splits)
  have other: "\<forall>(h, d, u) \<in> set ts. u \<noteq> n"
    using assms by (auto simp: ts_def timers_ok_def clearTimeout_def split: option.splits)
  have old: "now st < d \<and> map_of (typingTimeouts st) u = Some h"
    if "(h, d, u) \<in> set ts" for h d u
    using that sub assms by (auto simp: timers_ok_def)
  have bound: "\<forall>(u, h) \<in> set (typingTimeouts st). h < next_handle st"
    using assms by (simp add: timers_ok_def)
  have small: "h < next_handle st" if "(h, d, u) \<in> set ts" for h d u
    using old [OF that] bound by (auto dest: map_of_SomeD)
  have fresh: "next_handle st \<notin> fst ` set ts"
    using small by force
  have unreg: "next_handle st \<notin> snd ` set (typingTimeouts st)"
    using bound by force
  have vals: "distinct (map snd (map_set n (next_handle st) (typingTimeouts st)))"
    using assms unreg by (simp add: timers_ok_def distinct_snd_map_set)
  have bound': "\<forall>(u, h) \<in> set (map_set n (next_handle st) (typingTimeouts st)).
                  h < Suc (next_handle st)"
    using snd_map_set [of n "next_handle st" "typingTimeouts st"] bound
    by (fastforce simp: less_Suc_eq)
  have tm: "timers (fst (handleTyping n st)) = ts @ [(next_handle st, now st + 1000, n)]"
    and nh: "next_handle (fst (handleTyping n st)) = Suc (next_handle st)"
    and nw: "now (fst (handleTyping n st)) = now st"
    and tt: "typingTimeouts (fst (handleTyping n st))
              = map_set n (next_handle st) (typingTimeouts st)"
    by (auto simp: ts_def handleTyping_def setTimeout_def clearTimeout_def Let_def
          split: option.splits)
  have pend: "\<forall>(h, d, u) \<in> set (ts @ [(next_handle st, now st + 1000, n)]).
                now st < d \<and>
                map_of (map_set n (next_handle st) (typingTimeouts st)) u = Some h"
    using old other by (auto simp: map_of_map_set)
  show ?thesis
    unfolding timers_ok_def tm nh nw tt
    using dist fresh vals bound' pend by simp
qed

lemma step_timers_ok: "timers_ok st \<Longrightarrow> timers_ok (fst (step compose e st))"
proof (cases e)
  case (Typing sid n)
  assume "timers_ok st"
  then show ?thesis
    by (simp add: Typing on_typing_def handleTyping_timers_ok)
next
  case (Elapse ms)
  assume "timers_ok st"
  then show ?thesis
    by (auto simp: Elapse elapse_eq timers_ok_def distinct_map_filter)
qed (auto simp: timers_ok_def on_join_def on_get_document_def on_send_changes_def
       on_stop_typing_def on_disconnect_def Let_def split: option.splits)

lemma run_timers_ok: "timers_ok st \<Longrightarrow> timers_ok (fst (run compose es st))"
proof (induction es arbitrary: st)
  case Nil
  then show ?case by simp
next
  case (Cons e es)
  have "fst (run compose (e # es) st) = fst (run compose es (fst (step compose e st)))"
    by (simp add: case_prod_beta)
  with Cons.IH [OF step_timers_ok [OF Cons.prems]] show ?case by simp
qed

lemma init_timers_ok: "timers_ok init_state"
  by (simp add: timers_ok_def init_state_def)

lemma handleTyping_out:
  "snd (handleTyping n st) = (if n \<in> typingUsers st then [] else [(ToAll, TypingMsg n)])"
  by (simp add: handleTyping_def setTimeout_def Let_def case_prod_beta)

lemma handleTyping_now: "now (fst (handleTyping n st)) = now st"
  by (auto simp: handleTyping_def setTimeout_def clearTimeout_def Let_def
        split: option.splits)

lemma handleTyping_next_handle: "next_handle (fst (handleTyping n st)) = Suc (next_handle st)"
  by (auto simp: handleTyping_def setTimeout_def clearTimeout_def Let_def
        split: option.splits)

lemma handleTyping_typingUsers:
  "typingUsers (fst (handleTyping n st)) = insert n (typingUsers st)"
  by (auto simp: handleTyping_def setTimeout_def clearTimeout_def Let_def
        split: option.splits)

lemma handleTyping_typing: "n \<in> typingUsers (fst (handleTyping n st))"
  by (simp add: handleTyping_typingUsers)

lemma filter_swap: "filter P (filter Q ts) = filter Q (filter P ts)"
  by (induction ts) auto

lemma not_yet_due:
  assumes "timers_ok st"
  shows "filter (\<lambda>(h, d, u). d \<le> now st) (own_timers n st) = []"
    and "filter (\<lambda>(h, d, u). \<not> d \<le> now st) (own_timers n st) = own_timers n st"
proof -
  have "\<forall>t \<in> set (own_timers n st). case t of (h, d, u) \<Rightarrow> now st < d"
    using assms by (auto simp: timers_ok_def own_timers_def)
  then show "filter (\<lambda>(h, d, u). d \<le> now st) (own_timers n st) = []"
    and "filter (\<lambda>(h, d, u). \<not> d \<le> now st) (own_timers n st) = own_timers n st"
    by (induction "own_timers n st") (auto simp: filter_empty_conv filter_id_conv)
qed

lemma own_timers_elapse:
  "own_timers n (fst (elapse ms st))
     = filter (\<lambda>(h, d, u). \<not> d \<le> now st + ms) (own_timers n st)"
  unfolding own_timers_def elapse_eq fst_conv
  by (simp del: filter_filter add: filter_swap [of "\<lambda>t. snd (snd t) = n"])

lemma count_stop_own:
  "count_msg (StopTypingMsg n) (snd (elapse ms st))
     = length (filter (\<lambda>(h, d, u). d \<le> now st + ms) (own_timers n st))"
  unfolding own_timers_def by (rule count_stop_elapse)

lemma now_elapse: "now (fst (elapse ms st)) = now st + ms"
  by (simp add: elapse_eq)

lemma quiet_step:
  assumes "timers_ok st" and "quiet n e"
  shows "count_msg (StopTypingMsg n) (snd (step compose e st))
           = length (filter (\<lambda>(h, d, u). d \<le> now st + elapsed [e]) (own_timers n st)) \<and>
         own_timers n (fst (step compose e st))
           = filter (\<lambda>(h, d, u). \<not> d \<le> now st + elapsed [e]) (own_timers n st) \<and>
         now (fst (step compose e st)) = now st + elapsed [e]"
proof (cases e)
  case (Typing sid m)
  with assms show ?thesis
    by (simp add: on_typing_def handleTyping_out handleTyping_now handleTyping_other_timers
          not_yet_due count_msg_simps)
next
  case (Elapse ms)
  show ?thesis
    by (simp add: Elapse own_timers_elapse count_stop_own now_elapse)
next
  case (Connection sid)
  with assms show ?thesis
    by (simp add: not_yet_due count_msg_simps)
next
  case (Join sid u cb)
  have "own_timers n (fst (on_join sid u cb st)) = own_timers n st"
    and "now (fst (on_join sid u cb st)) = now st"
    and "count_msg (StopTypingMsg n) (snd (on_join sid u cb st)) = 0"
    by (simp_all add: own_timers_def on_join_def Let_def count_msg_simps)
  with assms show ?thesis
    by (simp add: Join not_yet_due)
next
  case (GetDocument sid)
  have "own_timers n (fst (on_get_document sid st)) = own_timers n st"
    and "now (fst (on_get_document sid st)) = now st"
    and "count_msg (StopTypingMsg n) (snd (on_get_document sid st)) = 0"
    by (simp_all add: own_timers_def on_get_document_def count_msg_simps)
  with assms show ?thesis
    by (simp add: GetDocument not_yet_due)
next
  case (SendChanges sid delta)
  have "own_timers n (fst (on_send_changes compose sid delta st)) = own_timers n st"
    and "now (fst (on_send_changes compose sid delta st)) = now st"
    and "count_msg (StopTypingMsg n) (snd (on_send_changes compose sid delta st)) = 0"
    by (simp_all add: own_timers_def on_send_changes_def Let_def count_msg_simps)
  with assms show ?thesis
    by (simp add: SendChanges not_yet_due)
next
  case (StopTyping sid m)
  have "own_timers n (fst (on_stop_typing sid m st)) = own_timers n st"
    and "now (fst (on_stop_typing sid m st)) = now st"
    by (simp_all add: own_timers_def on_stop_typing_def)
  moreover have "count_msg (StopTypingMsg n) (snd (on_stop_typing sid m st)) = 0"
    using assms(2) StopTyping by (simp add: on_stop_typing_def count_msg_simps)
  ultimately show ?thesis
    using assms by (simp add: StopTyping not_yet_due)
next
  case (Disconnect sid)
  have "own_timers n (fst (on_disconnect sid st)) = own_timers n st"
    and "now (fst (on_disconnect sid st)) = now st"
    and "count_msg (StopTypingMsg n) (snd (on_disconnect sid st)) = 0"
    by (simp_all add: own_timers_def on_disconnect_def Let_def count_msg_simps
          split: option.splits)
  with assms show ?thesis
    by (simp add: Disconnect not_yet_due)
qed

lemma due_later:
  "length (filter (\<lambda>(h, d, u). d \<le> (x::nat)) ts)
     + length (filter (\<lambda>(h, d, u). d \<le> x + y) (filter (\<lambda>(h, d, u). \<not> d \<le> x) ts))
   = length (filter (\<lambda>(h, d, u). d \<le> x + y) ts)"
  by (induction ts) auto

lemma pending_later:
  "filter (\<lambda>(h, d, u). \<not> d \<le> (x::nat) + y) (filter (\<lambda>(h, d, u). \<not> d \<le> x) ts)
     = filter (\<lambda>(h, d, u). \<not> d \<le> x + y) ts"
  by (induction ts) auto

lemma quiet_run:
  assumes "timers_ok st" and "list_all (quiet n) es"
  shows "count_msg (StopTypingMsg n) (snd (run compose es st))
           = length (filter (\<lambda>(h, d, u). d \<le> now st + elapsed es) (own_timers n st)) \<and>
         own_timers n (fst (run compose es st))
           = filter (\<lambda>(h, d, u). \<not> d \<le> now st + elapsed es) (own_timers n st) \<and>
         now (fst (run compose es st)) = now st + elapsed es"
  using assms
proof (induction es arbitrary: st)
  case Nil
  then show ?case
    by (simp add: not_yet_due count_msg_simps)
next
  case (Cons e es)
  let ?st1 = "fst (step compose e st)"
  have q: "quiet n e" and qs: "list_all (quiet n) es"
    using Cons.prems(2) by simp_all
  note s = quiet_step [OF Cons.prems(1) q, of compose]
  note r = Cons.IH [OF step_timers_ok [OF Cons.prems(1)] qs, of compose e]
  have t: "now st + elapsed (e # es) = now st + elapsed [e] + elapsed es"
    using elapsed_Cons [of e es] by simp
  show ?case
    unfolding run_Cons fst_conv snd_conv t
    using s r due_later [of "now st + elapsed [e]" "own_timers n st" "elapsed es"]
    by (simp del: filter_filter add: count_msg_simps pending_later)
qed

lemma none_due:
  assumes "filter (\<lambda>(h, d, u). d \<le> (x::nat)) ts = []"
    and "filter (\<lambda>(h, d, u). d \<le> x + y) (filter (\<lambda>(h, d, u). \<not> d \<le> x) ts) = []"
  shows "filter (\<lambda>(h, d, u). d \<le> x + y) ts = []"
  using due_later [of x ts y] assms by (simp del: filter_filter)

lemma none_due_later:
  assumes "filter (\<lambda>(h, d, u). d \<le> (x::nat) + y) ts = []"
  shows "filter (\<lambda>(h, d, u). d \<le> x) ts = []"
    and "filter (\<lambda>(h, d, u). d \<le> x + y) (filter (\<lambda>(h, d, u). \<not> d \<le> x) ts) = []"
  using assms by (auto simp: filter_empty_conv)

lemma typingUsers_elapse:
  "n \<in> typingUsers (fst (elapse ms st)) \<longleftrightarrow>
     n \<in> typingUsers st \<and>
     filter (\<lambda>(h, d, u). d \<le> now st + ms) (own_timers n st) = []"
  by (auto simp: elapse_eq own_timers_def filter_empty_conv)

lemma idle_step:
  assumes "timers_ok st" and "quiet n e" and "n \<in> typingUsers (fst (step compose e st))"
  shows "n \<in> typingUsers st \<and>
         filter (\<lambda>(h, d, u). d \<le> now st + elapsed [e]) (own_timers n st) = []"
proof (cases e)
  case (Elapse ms)
  with assms(3) show ?thesis
    by (simp add: typingUsers_elapse)
next
  case (Typing sid m)
  with assms show ?thesis
    by (simp add: on_typing_def handleTyping_typingUsers not_yet_due)
qed (use assms in \<open>auto simp: not_yet_due on_join_def on_get_document_def
       on_send_changes_def on_stop_typing_def on_disconnect_def Let_def
       split: option.splits if_splits\<close>)

lemma idle_run:
  assumes "timers_ok st" and "list_all (quiet n) es"
    and "n \<in> typingUsers (fst (run compose es st))"
  shows "n \<in> typingUsers st \<and>
         filter (\<lambda>(h, d, u). d \<le> now st + elapsed es) (own_timers n st) = []"
  using assms
proof (induction es arbitrary: st)
  case Nil
  then show ?case by (simp add: not_yet_due)
next
  case (Cons e es)
  let ?st1 = "fst (step compose e st)"
  have q: "quiet n e" and qs: "list_all (quiet n) es"
    using Cons.prems(2) by simp_all
  note s = quiet_step [OF Cons.prems(1) q, of compose]
  have "n \<in> typingUsers (fst (run compose es ?st1))"
    using Cons.prems(3) by (simp add: case_prod_beta)
  from Cons.IH [OF step_timers_ok [OF Cons.prems(1)] qs this]
  have r1: "n \<in> typingUsers ?st1"
    and r2: "filter (\<lambda>(h, d, u). d \<le> now st + elapsed [e] + elapsed es)
               (filter (\<lambda>(h, d, u). \<not> d \<le> now st + elapsed [e]) (own_timers n st)) = []"
    using s by simp_all
  from idle_step [OF Cons.prems(1) q r1]
  have i1: "n \<in> typingUsers st"
    and i2: "filter (\<lambda>(h, d, u). d \<le> now st + elapsed [e]) (own_timers n st) = []"
    by simp_all
  have "now st + elapsed (e # es) = now st + elapsed [e] + elapsed es"
    using elapsed_Cons [of e es] by simp
  with i1 none_due [OF i2 r2] show ?case by (simp only: simp_thms)
qed

lemma typing_step:
  assumes "timers_ok st" and "quiet n e"
    and "case e of Disconnect sid \<Rightarrow> map_of (users st) sid \<noteq> Some n | _ \<Rightarrow> True"
    and "n \<in> typingUsers st"
    and "filter (\<lambda>(h, d, u). d \<le> now st + elapsed [e]) (own_timers n st) = []"
  shows "n \<in> typingUsers (fst (step compose e st))"
proof (cases e)
  case (Elapse ms)
  with assms(4,5) show ?thesis
    by (simp add: typingUsers_elapse)
next
  case (Typing sid m)
  with assms show ?thesis
    by (simp add: on_typing_def handleTyping_typingUsers)
qed (use assms in \<open>auto simp: on_join_def on_get_document_def
       on_send_changes_def on_stop_typing_def on_disconnect_def Let_def
       split: option.splits if_splits\<close>)

lemma typing_run:
  assumes "timers_ok st" and "list_all (quiet n) es" and "stays compose n es st"
    and "n \<in> typingUsers st"
    and "filter (\<lambda>(h, d, u). d \<le> now st + elapsed es) (own_timers n st) = []"
  shows "n \<in> typingUsers (fst (run compose es st))"
  using assms
proof (induction es arbitrary: st)
  case Nil
  then show ?case by simp
next
  case (Cons e es)
  let ?st1 = "fst (step compose e st)"
  have q: "quiet n e" and qs: "list_all (quiet n) es"
    using Cons.prems(2) by simp_all
  have l: "case e of Disconnect sid \<Rightarrow> map_of (users st) sid \<noteq> Some n | _ \<Rightarrow> True"
    and ls: "stays compose n es ?st1"
    using Cons.prems(3) by simp_all
  note s = quiet_step [OF Cons.prems(1) q, of compose]
  have "filter (\<lambda>(h, d, u). d \<le> now st + elapsed [e] + elapsed es) (own_timers n st) = []"
    using Cons.prems(5) elapsed_Cons [of e es] by (simp add: add.assoc)
  note d = none_due_later [OF this]
  have t1: "n \<in> typingUsers ?st1"
    using typing_step [OF Cons.prems(1) q l Cons.prems(4) d(1)] .
  have "filter (\<lambda>(h, d, u). d \<le> now ?st1 + elapsed es) (own_timers n ?st1) = []"
    using s d(2) by simp
  from Cons.IH [OF step_timers_ok [OF Cons.prems(1)] qs ls t1 this]
  show ?case by (simp add: case_prod_beta)
qed

lemma after_typing:
  assumes "timers_ok st" and "list_all (quiet n) es"
  shows "count_msg (StopTypingMsg n) (snd (run compose (Typing sid n # es) st))
           = (if 1000 \<le> elapsed es then 1 else 0)"
    and "timers_ok (fst (run compose (Typing sid n # es) st))"
    and "now (fst (run compose (Typing sid n # es) st)) = now st + elapsed es"
proof -
  let ?st1 = "fst (handleTyping n st)"
  have ok1: "timers_ok ?st1"
    using assms(1) by (rule handleTyping_timers_ok)
  note r = quiet_run [OF ok1 assms(2), of compose]
  have "count_msg (StopTypingMsg n) (snd (handleTyping n st)) = 0"
    by (simp add: handleTyping_out count_msg_simps)
  with r show "count_msg (StopTypingMsg n) (snd (run compose (Typing sid n # es) st))
           = (if 1000 \<le> elapsed es then 1 else 0)"
    by (simp add: case_prod_beta on_typing_def count_msg_simps
          handleTyping_own_timers [OF assms(1)] handleTyping_now)
  show "timers_ok (fst (run compose (Typing sid n # es) st))"
    using run_timers_ok [OF ok1, of compose es] by (simp add: case_prod_beta on_typing_def)
  show "now (fst (run compose (Typing sid n # es) st)) = now st + elapsed es"
    using r by (simp add: case_prod_beta on_typing_def handleTyping_now)
qed

text \<open>
  C7. In every state the server reaches, let a typing signal for \<open>n\<close> be followed by any
  events \<open>es\<close> that are no typing or stop-typing signal for \<open>n\<close> (signals for other
  usernames, joins, edits, disconnects, time that passes in any number of steps). The
  typing message is emitted only if \<open>n\<close> was not in the typing set. The events \<open>es\<close>
  produce exactly one stop-typing message for \<open>n\<close> when 1000 ms or more pass in them, and
  none when less time passes. After 1000 ms or more the username is idle again: the next
  typing signal for it emits the typing message. A typing signal for \<open>n\<close> repeated before
  1000 ms have passed emits nothing (provided no connection registered as \<open>n\<close> has
  disconnected in between), and in every case it resets the timeout: the only pending
  timeout of \<open>n\<close> is then the new one, due 1000 ms after the repeated signal, so that the
  two signals together produce one stop-typing message for each of them that is followed
  by 1000 ms without a signal for \<open>n\<close>.
\<close>

theorem typing_window:
  assumes "st = fst (run compose es0 init_state)"
    and "list_all (quiet n) es" and "list_all (quiet n) es'"
  shows "snd (step compose (Typing sid n) st)
           = (if n \<in> typingUsers st then [] else [(ToAll, TypingMsg n)]) \<and>
         count_msg (StopTypingMsg n) (snd (run compose (Typing sid n # es) st))
           = (if 1000 \<le> elapsed es then 1 else 0) \<and>
         (1000 \<le> elapsed es \<longrightarrow>
            snd (step compose (Typing sid' n) (fst (run compose (Typing sid n # es) st)))
              = [(ToAll, TypingMsg n)]) \<and>
         (elapsed es < 1000 \<and> stays compose n es (fst (step compose (Typing sid n) st)) \<longrightarrow>
            snd (step compose (Typing sid' n) (fst (run compose (Typing sid n # es) st)))
              = []) \<and>
         own_timers n (fst (run compose (Typing sid n # es @ [Typing sid' n]) st))
           = [(next_handle (fst (run compose (Typing sid n # es) st)),
               now st + elapsed es + 1000, n)] \<and>
         count_msg (StopTypingMsg n)
             (snd (run compose (Typing sid n # es @ Typing sid' n # es') st))
           = (if 1000 \<le> elapsed es then 1 else 0) + (if 1000 \<le> elapsed es' then 1 else 0)"
proof -
  have ok: "timers_ok st"
    using assms(1) run_timers_ok [OF init_timers_ok] by simp
  let ?st1 = "fst (handleTyping n st)"
  let ?st2 = "fst (run compose (Typing sid n # es) st)"
  have ok1: "timers_ok ?st1"
    using ok by (rule handleTyping_timers_ok)
  have st2: "?st2 = fst (run compose es ?st1)"
    by (simp add: case_prod_beta on_typing_def)
  note a = after_typing [OF ok assms(2), of compose sid]
  note b = after_typing [OF a(2) assms(3), of compose sid']
  have own1: "own_timers n ?st1 = [(next_handle st, now st + 1000, n)]"
    using ok by (rule handleTyping_own_timers)
  have c1: "snd (step compose (Typing sid n) st)
              = (if n \<in> typingUsers st then [] else [(ToAll, TypingMsg n)])"
    by (simp add: on_typing_def handleTyping_out)
  have c3: "snd (step compose (Typing sid' n) ?st2) = [(ToAll, TypingMsg n)]"
    if late: "1000 \<le> elapsed es"
  proof -
    have "n \<notin> typingUsers (fst (run compose es ?st1))"
    proof
      assume "n \<in> typingUsers (fst (run compose es ?st1))"
      from idle_run [OF ok1 assms(2) this] late show False
        by (simp add: own1 handleTyping_now)
    qed
    then show ?thesis
      unfolding st2 by (simp add: on_typing_def handleTyping_out)
  qed
  have c4: "snd (step compose (Typing sid' n) ?st2) = []"
    if early: "elapsed es < 1000"
      and here: "stays compose n es (fst (step compose (Typing sid n) st))"
  proof -
    have "filter (\<lambda>(h, d, u). d \<le> now ?st1 + elapsed es) (own_timers n ?st1) = []"
      using early by (simp add: own1 handleTyping_now)
    moreover have "stays compose n es ?st1"
      using here by (simp add: on_typing_def)
    ultimately have "n \<in> typingUsers (fst (run compose es ?st1))"
      using typing_run [OF ok1 assms(2) _ handleTyping_typing] by blast
    then show ?thesis
      unfolding st2 by (simp add: on_typing_def handleTyping_out)
  qed
  have c5: "own_timers n (fst (run compose (Typing sid n # es @ [Typing sid' n]) st))
              = [(next_handle ?st2, now st + elapsed es + 1000, n)]"
    using handleTyping_own_timers [OF a(2), of n] a(3)
    by (simp add: run_append case_prod_beta on_typing_def)
  have c6: "count_msg (StopTypingMsg n)
                (snd (run compose (Typing sid n # es @ Typing sid' n # es') st))
              = (if 1000 \<le> elapsed es then 1 else 0) + (if 1000 \<le> elapsed es' then 1 else 0)"
  proof -
    have "run compose (Typing sid n # es @ Typing sid' n # es') st
            = run compose ((Typing sid n # es) @ (Typing sid' n # es')) st"
      by simp
    then have "snd (run compose (Typing sid n # es @ Typing sid' n # es') st)
            = snd (run compose (Typing sid n # es) st)
                @ snd (run compose (Typing sid' n # es') ?st2)"
      by (simp only: run_append snd_conv)
    with a(1) b(1) show ?thesis
      by (simp only: count_msg_simps)
  qed
  from c1 a(1) c3 c4 c5 c6 show ?thesis by blast
qed

theorem typing_window_witness:
  "count_msg (StopTypingMsg ''alice'')
     (snd (run delta_compose
        [Typing ''s1'' ''alice'', Elapse 400, Typing ''s2'' ''bob'', Elapse 400,
         Typing ''s2'' ''bob'', Elapse 5000] init_state)) = 1 \<and>
   snd (step delta_compose (Typing ''s1'' ''alice'')
     (fst (run delta_compose
        [Typing ''s1'' ''alice'', Elapse 400, Typing ''s2'' ''bob'', Elapse 400,
         Typing ''s2'' ''bob'', Elapse 5000] init_state))) = [(ToAll, TypingMsg ''alice'')] \<and>
   snd (step delta_compose (Typing ''s1'' ''alice'')
     (fst (run delta_compose
        [Typing ''s1'' ''alice'', Elapse 400, Typing ''s2'' ''bob'', Disconnect ''s2'']
        init_state))) = [] \<and>
   count_msg (StopTypingMsg ''alice'')
     (snd (run delta_compose
        [Typing ''s1'' ''alice'', Elapse 400, Typing ''s2'' ''bob'', Disconnect ''s2'',
         Typing ''s1'' ''alice'', Elapse 700, Typing ''s2'' ''bob'', Elapse 300]
        init_state)) = 1"
proof -
  have h: "init_state = fst (run delta_compose [] init_state)" by simp
  let ?late = "[Elapse 400, Typing ''s2'' ''bob'', Elapse 400, Typing ''s2'' ''bob'', Elapse 5000]"
  let ?early = "[Elapse 400, Typing ''s2'' ''bob'', Disconnect ''s2'']"
  let ?rest = "[Elapse 700, Typing ''s2'' ''bob'', Elapse 300]"
  have q1: "list_all (quiet ''alice'') ?late" and q2: "list_all (quiet ''alice'') ?early"
    and q3: "list_all (quiet ''alice'') ?rest" and q4: "list_all (quiet ''alice'') []"
    by simp_all
  have e1: "(1000::nat) \<le> elapsed ?late" and e2: "elapsed ?early < 1000"
    and e3: "(1000::nat) \<le> elapsed ?rest"
    by simp_all
  have here: "stays delta_compose ''alice'' ?early
                (fst (step delta_compose (Typing ''s1'' ''alice'') init_state))"
    by (simp add: on_typing_def handleTyping_def setTimeout_def on_disconnect_def
          elapse_eq init_state_def Let_def)
  from typing_window [OF h q1 q4, of "''s1''" "''s1''"] e1
  have late: "count_msg (StopTypingMsg ''alice'')
                (snd (run delta_compose (Typing ''s1'' ''alice'' # ?late) init_state)) = 1 \<and>
              snd (step delta_compose (Typing ''s1'' ''alice'')
                (fst (run delta_compose (Typing ''s1'' ''alice'' # ?late) init_state)))
                = [(ToAll, TypingMsg ''alice'')]"
    by (simp only: if_True simp_thms)
  from typing_window [OF h q2 q3, of "''s1''" "''s1''"] e1 e2 e3 here
  have early: "snd (step delta_compose (Typing ''s1'' ''alice'')
                (fst (run delta_compose (Typing ''s1'' ''alice'' # ?early) init_state))) = [] \<and>
              count_msg (StopTypingMsg ''alice'')
                (snd (run delta_compose
                   (Typing ''s1'' ''alice'' # ?early @ Typing ''s1'' ''alice'' # ?rest)
                   init_state)) = 1"
    by (simp only: if_True if_False simp_thms not_le [symmetric] add_0 append.simps)
  from late early show ?thesis
    by (simp only: append.simps simp_thms)
qed

text \<open>
  C6, as the code has it. A stop-typing signal for a username that is not in the typing
  set leaves the state as it is, and the stop-typing message is broadcast all the same.
\<close>

theorem stop_typing_when_idle:
  assumes "username \<notin> typingUsers st"
  shows "step compose (StopTyping sid username) st = (st, [(ToAll, StopTypingMsg username)])"
  using assms by (simp add: on_stop_typing_def)

theorem stop_typing_when_idle_witness:
  "step delta_compose (StopTyping ''s1'' ''alice'') init_state
     = (init_state, [(ToAll, StopTypingMsg ''alice'')])"
proof -
  have "''alice'' \<notin> typingUsers init_state"
    by (simp add: init_state_def)
  from stop_typing_when_idle [OF this] show ?thesis .
qed

text \<open>
  C6 as stated fails: nobody is typing in the initial state, and a stop-typing signal
  for alice is broadcast.
\<close>

theorem stop_typing_when_idle_counterexample:
  "''alice'' \<notin> typingUsers init_state \<and>
   snd (step delta_compose (StopTyping ''s1'' ''alice'') init_state)
     = [(ToAll, StopTypingMsg ''alice'')]"
  by (simp add: on_stop_typing_def init_state_def)

text \<open>
  C4, as the code has it. The disconnect of a registered connection with a non-empty
  username removes the username from the typing set. It emits no stop-typing message and
  cancels no timeout: the pending timeouts and \<open>typingTimeouts\<close> are as before, and
  what the timeouts emit when time passes is what they would have emitted without the
  disconnect.
\<close>

theorem disconnect_typing_cleanup:
  assumes "map_of (users st) sid = Some username" and "username \<noteq> []"
  shows "typingUsers (fst (step compose (Disconnect sid) st)) = typingUsers st - {username} \<and>
         count_msg (StopTypingMsg n) (snd (step compose (Disconnect sid) st)) = 0 \<and>
         timers (fst (step compose (Disconnect sid) st)) = timers st \<and>
         typingTimeouts (fst (step compose (Disconnect sid) st)) = typingTimeouts st \<and>
         snd (elapse ms (fst (step compose (Disconnect sid) st))) = snd (elapse ms st)"
  using assms by (simp add: on_disconnect_def elapse_eq count_msg_simps)

theorem disconnect_typing_cleanup_witness:
  "typingUsers (fst (step delta_compose (Disconnect ''s1'')
       (fst (run delta_compose [Join ''s1'' ''alice'' True, Typing ''s1'' ''alice'']
          init_state)))) = {} \<and>
   snd (elapse 1000 (fst (step delta_compose (Disconnect ''s1'')
       (fst (run delta_compose [Join ''s1'' ''alice'' True, Typing ''s1'' ''alice'']
          init_state))))) = [(ToAll, StopTypingMsg ''alice'')]"
proof -
  let ?st = "fst (run delta_compose [Join ''s1'' ''alice'' True, Typing ''s1'' ''alice'']
                init_state)"
  have h1: "map_of (users ?st) ''s1'' = Some ''alice''"
    by (simp only: run_alice_typing) simp
  have h2: "''alice'' \<noteq> []" by simp
  have e: "snd (elapse 1000 ?st) = [(ToAll, StopTypingMsg ''alice'')]"
    by (simp only: run_alice_typing)
       (simp add: elapse_def timeout_callback_def init_state_def)
  have t: "typingUsers ?st = {''alice''}"
    by (simp only: run_alice_typing) simp
  from disconnect_typing_cleanup [OF h1 h2, of delta_compose "''alice''" 1000]
  show ?thesis
    by (simp only: e t) simp
qed

text \<open>
  C4 as stated fails: alice is typing and disconnects; no stop-typing message is emitted
  at the disconnect, her timeout stays pending, and it runs 1000 ms later and emits the
  stop-typing message.
\<close>

theorem disconnect_while_typing_counterexample:
  "''alice'' \<in> typingUsers
     (fst (run delta_compose [Join ''s1'' ''alice'' True, Typing ''s1'' ''alice''] init_state)) \<and>
   count_msg (StopTypingMsg ''alice'')
     (snd (step delta_compose (Disconnect ''s1'')
       (fst (run delta_compose [Join ''s1'' ''alice'' True, Typing ''s1'' ''alice'']
          init_state)))) = 0 \<and>
   timers (fst (step delta_compose (Disconnect ''s1'')
       (fst (run delta_compose [Join ''s1'' ''alice'' True, Typing ''s1'' ''alice'']
          init_state)))) = [(0, 1000, ''alice'')] \<and>
   snd (elapse 1000 (fst (step delta_compose (Disconnect ''s1'')
       (fst (run delta_compose [Join ''s1'' ''alice'' True, Typing ''s1'' ''alice'']
          init_state))))) = [(ToAll, StopTypingMsg ''alice'')]"
  by (simp only: run_alice_typing)
     (simp add: on_disconnect_def elapse_def timeout_callback_def count_msg_simps
        init_state_def map_values_def)

section \<open>Connections that never joined\<close>

lemma map_delete_absent: "map_of m k = None \<Longrightarrow> map_delete k m = m"
  by (force simp: map_delete_def map_of_eq_None_iff filter_id_conv)

text \<open>
  C8, as the code has it. For a connection with no entry in the registry, the disconnect
  is a no-op: the state stays as it is and nothing is emitted. An edit from such a
  connection is not a no-op: it is broadcast to the other sockets under the author name
  "Unknown" and composed into the document. A typing signal from it is not a no-op either:
  it is handled like the signal of a registered connection, the username enters the typing
  set, the typing message is broadcast unless that username was typing already, and a
  timeout due 1000 ms later is set and registered under the username.
\<close>

theorem unknown_connection_is_served:
  assumes "map_of (users st) sid = None"
  shows "step compose (SendChanges sid delta) st =
           (st\<lparr>document := compose (document st) delta\<rparr>,
            [(ToOthers sid, ReceiveChanges delta ''Unknown'')]) \<and>
         step compose (Typing sid username) st = handleTyping username st \<and>
         snd (step compose (Typing sid username) st)
           = (if username \<in> typingUsers st then [] else [(ToAll, TypingMsg username)]) \<and>
         username \<in> typingUsers (fst (step compose (Typing sid username) st)) \<and>
         typingUsers (fst (step compose (Typing sid username) st))
           = insert username (typingUsers st) \<and>
         (next_handle st, now st + 1000, username)
           \<in> set (timers (fst (step compose (Typing sid username) st))) \<and>
         map_of (typingTimeouts (fst (step compose (Typing sid username) st))) username
           = Some (next_handle st) \<and>
         step compose (Disconnect sid) st = (st, [])"
proof -
  have timer: "(next_handle st, now st + 1000, username)
                 \<in> set (timers (fst (handleTyping username st)))"
    and reg: "map_of (typingTimeouts (fst (handleTyping username st))) username
                = Some (next_handle st)"
    by (auto simp: handleTyping_def setTimeout_def clearTimeout_def Let_def map_of_map_set
          split: option.splits)
  have leave: "step compose (Disconnect sid) st = (st, [])"
    using assms by (simp add: on_disconnect_def map_delete_absent)
  show ?thesis
    using assms timer reg leave
    by (simp add: on_send_changes_def on_typing_def handleTyping_out handleTyping_typingUsers)
qed

theorem unknown_connection_is_served_witness:
  "step delta_compose (SendChanges ''s9'' [Insert ''x'']) init_state
     = (init_state\<lparr>document := delta_compose [] [Insert ''x'']\<rparr>,
        [(ToOthers ''s9'', ReceiveChanges [Insert ''x''] ''Unknown'')]) \<and>
   ''ghost'' \<in> typingUsers (fst (step delta_compose (Typing ''s9'' ''ghost'') init_state)) \<and>
   (0, 1000, ''ghost'')
     \<in> set (timers (fst (step delta_compose (Typing ''s9'' ''ghost'') init_state))) \<and>
   step delta_compose (Disconnect ''s9'') init_state = (init_state, [])"
proof -
  have h: "map_of (users init_state) ''s9'' = None"
    by (simp add: init_state_def)
  have d: "document init_state = []" "next_handle init_state = 0" "now init_state + 1000 = 1000"
    by (simp_all add: init_state_def)
  from unknown_connection_is_served [OF h, of delta_compose "[Insert ''x'']" "''ghost''"]
  show ?thesis unfolding d by blast
qed

text \<open>
  C8 as stated fails: in the initial state nobody is registered, and the edit of socket
  s9 is broadcast and changes the document, and its typing signal is broadcast.
\<close>

theorem unknown_connection_counterexample:
  "map_of (users init_state) ''s9'' = None \<and>
   step delta_compose (SendChanges ''s9'' [Insert ''x'']) init_state
     = (init_state\<lparr>document := [Insert ''x'']\<rparr>,
        [(ToOthers ''s9'', ReceiveChanges [Insert ''x''] ''Unknown'')]) \<and>
   snd (step delta_compose (Typing ''s9'' ''ghost'') init_state)
     = [(ToAll, TypingMsg ''ghost'')]"
  by (simp add: on_send_changes_def on_typing_def handleTyping_out compose_defs
        init_state_def)

end
